theory Spec2Isabelle
  imports Main "HOL-Library.Word" "HOL-Library.Char_ord" "HOL-Library.List_Lexorder"
    "HOL-Library.Sublist"
begin

section \<open>The x86\_adapt Score-P plugin: data model\<close>

text \<open>
  The development embeds \<^verbatim>\<open>include/x86_adapt_plugin.hpp\<close>: the class
  \<^verbatim>\<open>recorder_thread\<close> (one background sampling thread) and the class
  \<^verbatim>\<open>x86_adapt_plugin\<close> (name table, handle table, one recorder per CPU, timelines).
  C++ member names end in an underscore, which Isabelle does not accept in a name; the
  underscore is dropped (\<^verbatim>\<open>running_\<close> is \<open>running\<close>, \<^verbatim>\<open>knobs_\<close> is \<open>knobs\<close>), and
  \<^verbatim>\<open>values_\<close> is \<open>values_of\<close>.

  The program is concurrent. It is modelled as an interleaving of atomic steps on one
  explicit state: the three public calls of the plugin, and two steps of a background
  thread (entering \<^verbatim>\<open>loop\<close>, and one test of the \<^verbatim>\<open>while\<close> condition followed by one pass
  over the loop body). What the operating system, the clock and the device return is input
  of the step that asks for it. The join in \<^verbatim>\<open>stop\<close> is one step with the call that
  makes it. Exhaustion of memory or of threads and a device read that throws are outside
  the model.
\<close>

type_synonym ticks = "64 word"
type_synonym sample = "ticks \<times> 64 word"
type_synonym cpu_set = "nat set"

text \<open>
  Modelled from the spec: the class \<^verbatim>\<open>x86_adapt::configuration_item\<close> is declared in the
  x86\_adapt library. The spec gives it a name, a human-readable description and an opaque
  reader handle, and requires equality and ordering so that it can key a map.
\<close>

record configuration_item =
  ci_name :: string
  ci_description :: string
  ci_handle :: nat

text \<open>
  Modelled from the spec: the library object \<^verbatim>\<open>x86_adapt::x86_adapt\<close>. \<open>ci_lookup\<close> is
  \<^verbatim>\<open>cpu_configuration_items().lookup(name)\<close>, which fails on an unknown name; \<open>cpu_present\<close>
  tells whether \<^verbatim>\<open>cpu(id)\<close> can open the device of that CPU.
\<close>

record x86_adapt =
  ci_lookup :: "string \<rightharpoonup> configuration_item"
  cpu_present :: "int \<Rightarrow> bool"

datatype failure =
    Raised string       \<comment> \<open>\<^verbatim>\<open>scorep::exception::raise\<close> with its message\<close>
  | Out_of_range        \<comment> \<open>\<^verbatim>\<open>std::map::at\<close> on a missing key\<close>
  | X86_adapt_error     \<comment> \<open>an exception of the x86\_adapt library\<close>
  | Terminate           \<comment> \<open>\<^verbatim>\<open>std::terminate\<close>: the process is gone\<close>
  | Undefined           \<comment> \<open>undefined behaviour: an unchecked access out of range\<close>

fun fatal :: "failure + 'a \<Rightarrow> bool" where
  "fatal (Inl Terminate) = True"
| "fatal (Inl Undefined) = True"
| "fatal _ = False"

subsection \<open>The background thread\<close>

datatype phase = Spawned | In_loop | Exited

text \<open>
  A \<^verbatim>\<open>std::thread\<close> running \<^verbatim>\<open>recorder_thread::loop\<close>. \<open>cpumask\<close> is the by-value
  argument of \<^verbatim>\<open>loop\<close>; \<open>bound\<close> is the mask installed by the thread's own successful
  \<^verbatim>\<open>sched_setaffinity\<close> (\<open>None\<close> before that: the program has not chosen the mask); \<open>pc\<close>
  is where the thread stands. The arguments \<^verbatim>\<open>cis\<close> and \<^verbatim>\<open>timelines\<close> are references
  into the plugin (\<^verbatim>\<open>std::ref\<close>), so the thread's steps read and write the plugin state.
\<close>

record bg_thread =
  cpumask :: cpu_set
  bound :: "cpu_set option"
  pc :: phase

record recorder_thread =
  running :: bool
  device :: int
  thread :: "bg_thread option"
  looping :: bool
  interval :: nat

text \<open>
  The constructor. \<^verbatim>\<open>looping\<close> is left uninitialised by it and is written by
  \<^verbatim>\<open>start\<close> before anything reads it; the model starts it at \<open>False\<close>.
\<close>

definition new_recorder_thread :: "int \<Rightarrow> nat \<Rightarrow> recorder_thread" where
  "new_recorder_thread dev ival =
     \<lparr>running = False, device = dev, thread = None, looping = False, interval = ival\<rparr>"

type_synonym timelines = "configuration_item \<rightharpoonup> sample list"

text \<open>\<^verbatim>\<open>timelines[ci].emplace_back(x)\<close>: \<^verbatim>\<open>operator[]\<close> creates a missing timeline.\<close>

definition emplace_back :: "timelines \<Rightarrow> configuration_item \<Rightarrow> sample \<Rightarrow> timelines" where
  "emplace_back tms ci x = tms(ci \<mapsto> (case tms ci of None \<Rightarrow> [] | Some v \<Rightarrow> v) @ [x])"

text \<open>
  The \<^verbatim>\<open>for\<close> loop of \<^verbatim>\<open>loop\<close> over the entries of \<^verbatim>\<open>cis\<close>, in the order of the map.
  \<open>rd k\<close> is what the clock and the device return at the \<open>k\<close>-th entry.
\<close>

fun sample_items ::
  "(string \<times> configuration_item) list \<Rightarrow> nat \<Rightarrow> (nat \<Rightarrow> sample) \<Rightarrow> timelines \<Rightarrow> timelines" where
  "sample_items [] k rd tms = tms"
| "sample_items (ci # cis) k rd tms = sample_items cis (Suc k) rd (emplace_back tms (snd ci) (rd k))"

text \<open>
  \<^verbatim>\<open>sched_setaffinity(0, sizeof(cpu_set_t), &cpumask)\<close>: the return code and the mask the
  thread has afterwards. \<open>ok\<close> is whether the system call succeeds.
\<close>

definition sched_setaffinity :: "bool \<Rightarrow> cpu_set \<Rightarrow> cpu_set option \<Rightarrow> int \<times> cpu_set option" where
  "sched_setaffinity ok cm old = (if ok then (0, Some cm) else (- 1, old))"

text \<open>The first statement of \<^verbatim>\<open>loop\<close>; the return code is dropped.\<close>

definition loop_enter :: "bool \<Rightarrow> bg_thread \<Rightarrow> bg_thread" where
  "loop_enter ok th =
     th\<lparr>bound := snd (sched_setaffinity ok (cpumask th) (bound th)), pc := In_loop\<rparr>"

text \<open>One test of \<^verbatim>\<open>looping.load()\<close>, and one pass over the body when it holds.\<close>

definition loop_iteration ::
  "(nat \<Rightarrow> sample) \<Rightarrow> (string \<times> configuration_item) list \<Rightarrow> bool \<Rightarrow> timelines \<Rightarrow> bg_thread
     \<Rightarrow> bg_thread \<times> timelines" where
  "loop_iteration rd cis keep tms th =
     (if keep then (th, sample_items cis 0 rd tms) else (th\<lparr>pc := Exited\<rparr>, tms))"

text \<open>
  \<^verbatim>\<open>start\<close>. \<open>cm\<close> is what \<^verbatim>\<open>sched_getaffinity\<close> gives for the calling thread. The
  assignment to \<^verbatim>\<open>thread_\<close> destroys the \<^verbatim>\<open>std::thread\<close> held before; \<^verbatim>\<open>stop\<close> is the
  only place that joins and it resets the pointer, so a thread still held is joinable and
  its destructor calls \<^verbatim>\<open>std::terminate\<close>.
\<close>

definition start :: "cpu_set \<Rightarrow> recorder_thread \<Rightarrow> failure + recorder_thread" where
  "start cm r =
     (let r1 = r\<lparr>looping := True\<rparr>;
          th = \<lparr>cpumask = cm, bound = None, pc = Spawned\<rparr>
      in case thread r1 of
           Some old \<Rightarrow> Inl Terminate
         | None \<Rightarrow> Inr (r1\<lparr>thread := Some th, running := True\<rparr>))"

text \<open>
  \<^verbatim>\<open>stop\<close>. The join returns when the thread has left \<^verbatim>\<open>loop\<close>, which it does at its
  next test of \<^verbatim>\<open>looping\<close>; no sample is appended after that test.
\<close>

definition stop :: "recorder_thread \<Rightarrow> failure + recorder_thread" where
  "stop r =
     (if \<not> running r then Inr r
      else case thread (r\<lparr>looping := False\<rparr>) of
             None \<Rightarrow> Inl Undefined
           | Some th \<Rightarrow> Inr (r\<lparr>looping := False, thread := None, running := False\<rparr>))"

subsection \<open>The plugin\<close>

record oid =
  item :: configuration_item
  cpu :: int

datatype metric_mode = Accumulated | Absolute_point
datatype metric_value_type = Value_int | Value_uint | Value_double

text \<open>Modelled from the spec: \<^verbatim>\<open>scorep::plugin::metric_property\<close>, a description for
  the host's catalogue.\<close>

record metric_property =
  mp_name :: string
  mp_description :: string
  mp_unit :: string
  mp_mode :: metric_mode
  mp_value_type :: metric_value_type

text \<open>
  \<open>knobs\<close> is a \<^verbatim>\<open>std::map\<close> that the loop iterates, so it is an association list kept
  in key order. \<open>opened\<close> is not a member of the class: it records every call of
  \<^verbatim>\<open>x86_adapt_.cpu(cpu)\<close>, each of which opens a device.
\<close>

record x86_adapt_plugin =
  knobs :: "(string \<times> configuration_item) list"
  recorded_knobs :: "oid list"
  recorders :: "int \<rightharpoonup> recorder_thread"
  values_of :: "int \<rightharpoonup> timelines"
  opened :: "int list"

definition init :: x86_adapt_plugin where
  "init = \<lparr>knobs = [], recorded_knobs = [], recorders = Map.empty, values_of = Map.empty,
            opened = []\<rparr>"

text \<open>\<^verbatim>\<open>std::map::emplace\<close>: an existing key keeps its value.\<close>

fun map_emplace :: "'k::linorder \<Rightarrow> 'v \<Rightarrow> ('k \<times> 'v) list \<Rightarrow> ('k \<times> 'v) list" where
  "map_emplace k v [] = [(k, v)]"
| "map_emplace k v (e # m) =
     (if k = fst e then e # m
      else if k < fst e then (k, v) # e # m
      else e # map_emplace k v m)"

text \<open>The thread that calls the plugin: its affinity mask and what \<^verbatim>\<open>sched_getcpu\<close>
  returns to it.\<close>

record caller =
  affinity :: cpu_set
  sched_getcpu :: int

definition is_pinned :: "caller \<Rightarrow> bool" where
  "is_pinned c = (card (affinity c) = 1)"

definition get_current_cpu :: "caller \<Rightarrow> failure + int" where
  "get_current_cpu c =
     (let res = sched_getcpu c
      in if res < 0 then Inl (Raised ''Failed to get current cpu for current thread'')
         else Inr res)"

definition get_metric_properties ::
  "x86_adapt \<Rightarrow> string \<Rightarrow> x86_adapt_plugin \<Rightarrow> (failure + metric_property list) \<times> x86_adapt_plugin" where
  "get_metric_properties lib knob_name s =
     (case ci_lookup lib knob_name of
        None \<Rightarrow> (Inl X86_adapt_error, s)
      | Some ci \<Rightarrow>
          (Inr [\<lparr>mp_name = knob_name, mp_description = ci_description ci, mp_unit = ''#'',
                 mp_mode = Absolute_point, mp_value_type = Value_uint\<rparr>],
           s\<lparr>knobs := map_emplace knob_name ci (knobs s)\<rparr>))"

text \<open>\<^verbatim>\<open>static_cast<int>\<close> of a \<^verbatim>\<open>size_t\<close>: the low 32 bits, read as signed.\<close>

definition static_cast_int :: "nat \<Rightarrow> int" where
  "static_cast_int n =
     (let m = int n mod 2 ^ 32 in if m < 2 ^ 31 then m else m - 2 ^ 32)"

definition add_metric ::
  "x86_adapt \<Rightarrow> caller \<Rightarrow> string \<Rightarrow> x86_adapt_plugin \<Rightarrow> (failure + int) \<times> x86_adapt_plugin" where
  "add_metric lib c knob_name s =
     (if \<not> is_pinned c
      then (Inl (Raised ''Thread is not pinned to one specific CPU. Cannot continue.''), s)
      else
        (case get_current_cpu c of
           Inl e \<Rightarrow> (Inl e, s)
         | Inr n \<Rightarrow>
            (let s1 = s\<lparr>opened := opened s @ [n]\<rparr>
             in if \<not> cpu_present lib n then (Inl X86_adapt_error, s1)
                else
                  (let ident = length (recorded_knobs s1)
                   in (case map_of (knobs s1) knob_name of
                         None \<Rightarrow> (Inl Out_of_range, s1)
                       | Some ci \<Rightarrow>
                          (let s2 = s1\<lparr>recorded_knobs :=
                                        recorded_knobs s1 @ [\<lparr>item = ci, cpu = n\<rparr>]\<rparr>;
                               s3 = (case recorders s2 n of
                                       None \<Rightarrow> s2\<lparr>recorders :=
                                         (recorders s2)(n \<mapsto> new_recorder_thread n 50000000)\<rparr>
                                     | Some r \<Rightarrow> s2);
                               s4 = (case values_of s3 n of
                                       None \<Rightarrow> s3\<lparr>values_of := (values_of s3)(n \<mapsto> Map.empty)\<rparr>
                                     | Some tms \<Rightarrow> s3)
                           in (case recorders s4 n of
                                 None \<Rightarrow> (Inl Undefined, s4)
                               | Some r \<Rightarrow>
                                  (case start (affinity c) r of
                                     Inl e \<Rightarrow> (Inl e, s4)
                                   | Inr r' \<Rightarrow>
                                      (Inr (static_cast_int ident),
                                       s4\<lparr>recorders := (recorders s4)(n \<mapsto> r')\<rparr>)))))))))"

text \<open>
  \<^verbatim>\<open>get_all_values\<close>. The cursor is a list and \<^verbatim>\<open>c << entry\<close> appends to it.
  \<^verbatim>\<open>recorded_knobs_[id]\<close> is \<^verbatim>\<open>std::vector::operator[]\<close>, which checks nothing; the
  \<^verbatim>\<open>int\<close> is converted to \<^verbatim>\<open>size_t\<close>, so a negative one is out of range as well.
  \<^verbatim>\<open>recorders_[cpu]\<close> on a missing key gives a null pointer. \<^verbatim>\<open>values_[cpu][knob]\<close>
  creates what is missing, and \<^verbatim>\<open>timeline\<close> is a copy of it.
\<close>

definition get_all_values ::
  "int \<Rightarrow> sample list \<Rightarrow> x86_adapt_plugin \<Rightarrow> (failure + sample list) \<times> x86_adapt_plugin" where
  "get_all_values ident c s =
     (if ident < 0 \<or> int (length (recorded_knobs s)) \<le> ident then (Inl Undefined, s)
      else
        let oid = recorded_knobs s ! nat ident;
            n = cpu oid
        in case recorders s n of
             None \<Rightarrow> (Inl Undefined, s)
           | Some r \<Rightarrow>
               (case stop r of
                  Inl e \<Rightarrow> (Inl e, s)
                | Inr r' \<Rightarrow>
                    let s1 = s\<lparr>recorders := (recorders s)(n \<mapsto> r')\<rparr>;
                        knob = item oid;
                        tls = (case values_of s1 n of None \<Rightarrow> Map.empty | Some m \<Rightarrow> m);
                        timeline = (case tls knob of None \<Rightarrow> [] | Some v \<Rightarrow> v);
                        s2 = s1\<lparr>values_of := (values_of s1)(n \<mapsto> tls(knob \<mapsto> timeline))\<rparr>
                    in (Inr (c @ timeline), s2)))"

subsection \<open>Steps of the whole system\<close>

text \<open>
  The two steps of the background thread of the recorder of CPU \<open>n\<close>. That recorder was
  started with \<^verbatim>\<open>knobs_\<close> and \<^verbatim>\<open>values_[cpu]\<close> by reference, so a step reads the name table
  and writes the timelines as they are when it runs. A step that is not enabled (no such
  thread, or not at that point) changes nothing.
\<close>

definition thread_enters :: "int \<Rightarrow> bool \<Rightarrow> x86_adapt_plugin \<Rightarrow> x86_adapt_plugin" where
  "thread_enters n ok s =
     (case recorders s n of
        None \<Rightarrow> s
      | Some r \<Rightarrow>
          (case thread r of
             None \<Rightarrow> s
           | Some th \<Rightarrow>
               if pc th = Spawned
               then s\<lparr>recorders := (recorders s)(n \<mapsto> r\<lparr>thread := Some (loop_enter ok th)\<rparr>)\<rparr>
               else s))"

definition thread_iterates :: "int \<Rightarrow> (nat \<Rightarrow> sample) \<Rightarrow> x86_adapt_plugin \<Rightarrow> x86_adapt_plugin" where
  "thread_iterates n rd s =
     (case recorders s n of
        None \<Rightarrow> s
      | Some r \<Rightarrow>
          (case thread r of
             None \<Rightarrow> s
           | Some th \<Rightarrow>
               (case values_of s n of
                  None \<Rightarrow> s
                | Some tms \<Rightarrow>
                    if pc th = In_loop
                    then let (th', tms') = loop_iteration rd (knobs s) (looping r) tms th
                         in s\<lparr>recorders := (recorders s)(n \<mapsto> r\<lparr>thread := Some th'\<rparr>),
                              values_of := (values_of s)(n \<mapsto> tms')\<rparr>
                    else s)))"

datatype event =
    Declare string                     \<comment> \<open>\<^verbatim>\<open>get_metric_properties\<close>\<close>
  | Activate caller string             \<comment> \<open>\<^verbatim>\<open>add_metric\<close>, from that thread\<close>
  | Harvest int                        \<comment> \<open>\<^verbatim>\<open>get_all_values\<close> into an empty cursor\<close>
  | Enter int bool                     \<comment> \<open>the thread of that CPU enters \<^verbatim>\<open>loop\<close>\<close>
  | Iterate int "nat \<Rightarrow> sample"         \<comment> \<open>the thread of that CPU runs one iteration\<close>

datatype retval =
    Properties "metric_property list"
  | Handle int
  | Samples "sample list"
  | Nothing

fun step :: "x86_adapt \<Rightarrow> event \<Rightarrow> x86_adapt_plugin \<Rightarrow> (failure + retval) \<times> x86_adapt_plugin" where
  "step lib (Declare name) s = map_prod (map_sum (\<lambda>e. e) Properties) (\<lambda>t. t) (get_metric_properties lib name s)"
| "step lib (Activate c name) s = map_prod (map_sum (\<lambda>e. e) Handle) (\<lambda>t. t) (add_metric lib c name s)"
| "step lib (Harvest ident) s = map_prod (map_sum (\<lambda>e. e) Samples) (\<lambda>t. t) (get_all_values ident [] s)"
| "step lib (Enter n ok) s = (Inr Nothing, thread_enters n ok s)"
| "step lib (Iterate n rd) s = (Inr Nothing, thread_iterates n rd s)"

text \<open>
  A run of events. An exception leaves the call and the process goes on with the state
  as the call left it; \<^verbatim>\<open>std::terminate\<close> and undefined behaviour end the run.
\<close>

fun run ::
  "x86_adapt \<Rightarrow> event list \<Rightarrow> x86_adapt_plugin
     \<Rightarrow> (event \<times> (failure + retval)) list \<times> x86_adapt_plugin" where
  "run lib [] s = ([], s)"
| "run lib (e # es) s =
     (let (r, s') = step lib e s
      in if fatal r then ([(e, r)], s')
         else let (l, s'') = run lib es s' in ((e, r) # l, s''))"

inductive reachable :: "x86_adapt \<Rightarrow> x86_adapt_plugin \<Rightarrow> bool" for lib where
  reachable_init: "reachable lib init"
| reachable_step: "reachable lib s \<Longrightarrow> step lib e s = (r, s') \<Longrightarrow> \<not> fatal r \<Longrightarrow> reachable lib s'"

subsection \<open>Derived notions\<close>

text \<open>The samples recorded so far for one item on one CPU: \<^verbatim>\<open>values_[cpu][knob]\<close>, read
  without creating anything.\<close>

definition timeline :: "x86_adapt_plugin \<Rightarrow> int \<Rightarrow> configuration_item \<Rightarrow> sample list" where
  "timeline s n ci =
     (case values_of s n of None \<Rightarrow> [] | Some m \<Rightarrow> (case m ci of None \<Rightarrow> [] | Some v \<Rightarrow> v))"

text \<open>
  What every state of the plugin satisfies: the name table is in key order and holds what
  the library's lookup gave; the CPUs that have a recorder are the CPUs of the handle table;
  a recorder's CPU has its timelines; a recorder holds a thread exactly when it is running,
  and then \<open>looping\<close> is set; its device is the device of its CPU.
\<close>

definition wf :: "x86_adapt \<Rightarrow> x86_adapt_plugin \<Rightarrow> bool" where
  "wf lib s =
     (sorted_wrt (<) (map fst (knobs s)) \<and>
      (\<forall>k v. map_of (knobs s) k = Some v \<longrightarrow> ci_lookup lib k = Some v) \<and>
      (\<forall>n. (recorders s n \<noteq> None) = (n \<in> cpu ` set (recorded_knobs s))) \<and>
      (\<forall>n. recorders s n \<noteq> None \<longrightarrow> values_of s n \<noteq> None) \<and>
      (\<forall>n r. recorders s n = Some r \<longrightarrow>
         running r = (thread r \<noteq> None) \<and> looping r = running r \<and> device r = n))"

text \<open>\<open>extends s s'\<close>: the handle table, the name table and every timeline of \<open>s\<close> are
  still there in \<open>s'\<close>, which may have more.\<close>

definition extends :: "x86_adapt_plugin \<Rightarrow> x86_adapt_plugin \<Rightarrow> bool" where
  "extends s s' =
     (prefix (recorded_knobs s) (recorded_knobs s') \<and>
      (\<forall>k v. map_of (knobs s) k = Some v \<longrightarrow> map_of (knobs s') k = Some v) \<and>
      (\<forall>n ci. prefix (timeline s n ci) (timeline s' n ci)))"

text \<open>The calls of \<^verbatim>\<open>add_metric\<close> in a log that returned a handle, in order, each with its
  caller, its metric name and the handle.\<close>

fun activations :: "(event \<times> (failure + retval)) list \<Rightarrow> (caller \<times> string \<times> int) list" where
  "activations [] = []"
| "activations ((Activate c name, Inr (Handle h)) # l) = (c, name, h) # activations l"
| "activations (x # l) = activations l"

text \<open>The calls that reach \<^verbatim>\<open>x86_adapt_.cpu(cpu)\<close> for CPU \<open>n\<close>: \<^verbatim>\<open>add_metric\<close> from a
  pinned thread that runs on \<open>n\<close>.\<close>

fun opens_device :: "int \<Rightarrow> event \<Rightarrow> bool" where
  "opens_device n (Activate c name) = (is_pinned c \<and> 0 \<le> sched_getcpu c \<and> sched_getcpu c = n)"
| "opens_device n e = False"

subsection \<open>Example inputs\<close>

definition knob_a :: configuration_item where
  "knob_a = \<lparr>ci_name = ''a'', ci_description = ''first knob'', ci_handle = 0\<rparr>"

definition knob_b :: configuration_item where
  "knob_b = \<lparr>ci_name = ''b'', ci_description = ''second knob'', ci_handle = 1\<rparr>"

definition lib0 :: x86_adapt where
  "lib0 = \<lparr>ci_lookup = [''a'' \<mapsto> knob_a, ''b'' \<mapsto> knob_b],
            cpu_present = (\<lambda>n. 0 \<le> n \<and> n < 4)\<rparr>"

text \<open>A thread pinned to CPU 0, and one allowed on CPUs 0 and 1.\<close>

definition cpu0 :: caller where
  "cpu0 = \<lparr>affinity = {0}, sched_getcpu = 0\<rparr>"

definition cpu01 :: caller where
  "cpu01 = \<lparr>affinity = {0, 1}, sched_getcpu = 0\<rparr>"

text \<open>A clock and a device that count: the \<open>k\<close>-th read of an iteration gives time
  \<open>k\<close> and value \<open>100 + k\<close>.\<close>

definition rd0 :: "nat \<Rightarrow> sample" where
  "rd0 k = (word_of_nat k, 100 + word_of_nat k)"

text \<open>The same one iteration later: time \<open>10 + k\<close> and value \<open>200 + k\<close>.\<close>

definition rd1 :: "nat \<Rightarrow> sample" where
  "rd1 k = (10 + word_of_nat k, 200 + word_of_nat k)"

text \<open>The plugin after \<open>a\<close> was declared and activated on CPU 0 and the thread has run
  two iterations.\<close>

definition sampled :: x86_adapt_plugin where
  "sampled =
     snd (run lib0 [Declare ''a'', Activate cpu0 ''a'', Enter 0 True, Iterate 0 rd0, Iterate 0 rd1]
            init)"

text \<open>The plugin after \<open>a\<close> was declared and activated on CPU 0, the thread has entered
  its loop, and \<open>b\<close> was declared after that.\<close>

definition late_declared :: x86_adapt_plugin where
  "late_declared =
     snd (run lib0 [Declare ''a'', Activate cpu0 ''a'', Enter 0 True, Declare ''b''] init)"

text \<open>\<open>n\<close> rounds of activating \<open>a\<close> on CPU 0 and harvesting handle 0.\<close>

definition rounds :: "nat \<Rightarrow> event list" where
  "rounds n = concat (replicate n [Activate cpu0 ''a'', Harvest 0])"

section \<open>Properties\<close>

lemmas example_defs = knob_a_def knob_b_def lib0_def cpu0_def cpu01_def init_def
  get_metric_properties_def add_metric_def get_all_values_def thread_enters_def
  thread_iterates_def is_pinned_def get_current_cpu_def start_def stop_def
  new_recorder_thread_def static_cast_int_def loop_enter_def loop_iteration_def
  sched_setaffinity_def emplace_back_def Let_def

subsection \<open>The name table\<close>

lemma map_emplace_keys: "fst ` set (map_emplace k v m) = insert k (fst ` set m)"
  by (induction m) auto

lemma map_emplace_sorted:
  "sorted_wrt (<) (map fst m) \<Longrightarrow> sorted_wrt (<) (map fst (map_emplace k v m))"
proof (induction m)
  case Nil
  then show ?case by simp
next
  case (Cons e m)
  have "fst e < x" if "x \<in> fst ` set (map_emplace k v m)" "\<not> k < fst e" "k \<noteq> fst e" for x
    using that Cons.prems by (auto simp: map_emplace_keys)
  with Cons show ?case by auto
qed

lemma map_of_sorted_less:
  "sorted_wrt (<) (map fst (e # m)) \<Longrightarrow> (k::'k::linorder) < fst e \<Longrightarrow> map_of (e # m) k = None"
proof -
  assume a: "sorted_wrt (<) (map fst (e # m))" and b: "k < fst e"
  have "k \<notin> fst ` set (e # m)"
  proof
    assume "k \<in> fst ` set (e # m)"
    then consider "k = fst e" | "k \<in> fst ` set m" by auto
    then show False
    proof cases
      case 1
      with b show False by simp
    next
      case 2
      with a have "fst e < k" by auto
      with b show False by simp
    qed
  qed
  then show ?thesis by (rule map_of_eq_None_iff[THEN iffD2])
qed

lemma map_of_map_emplace:
  "sorted_wrt (<) (map fst m) \<Longrightarrow>
   map_of (map_emplace k v m) = (case map_of m k of None \<Rightarrow> (map_of m)(k \<mapsto> v) | Some w \<Rightarrow> map_of m)"
proof (induction m)
  case Nil
  then show ?case by simp
next
  case (Cons e m)
  show ?case
  proof (cases "k = fst e")
    case True
    then show ?thesis by (cases e) simp
  next
    case ne: False
    show ?thesis
    proof (cases "k < fst e")
      case True
      with map_of_sorted_less[OF Cons.prems True] ne show ?thesis by (cases e) auto
    next
      case False
      with ne Cons show ?thesis by (cases e) (auto split: option.splits)
    qed
  qed
qed

lemma map_emplace_present:
  "sorted_wrt (<) (map fst m) \<Longrightarrow> map_of m k = Some w \<Longrightarrow> map_emplace k v m = m"
proof (induction m)
  case Nil
  then show ?case by simp
next
  case (Cons e m)
  show ?case
  proof (cases "k = fst e")
    case True
    then show ?thesis by simp
  next
    case ne: False
    have "\<not> k < fst e"
      using map_of_sorted_less[OF Cons.prems(1)] Cons.prems(2) by auto
    with ne Cons show ?thesis by (cases e) (auto split: if_splits)
  qed
qed

subsection \<open>The invariant\<close>

lemma wf_init: "wf lib init"
  by (simp add: wf_def init_def)

lemma wf_get_metric_properties:
  "wf lib s \<Longrightarrow> wf lib (snd (get_metric_properties lib k s))"
  unfolding wf_def get_metric_properties_def
  by (auto simp: map_emplace_sorted map_of_map_emplace split: option.splits if_splits)

lemma start_cases:
  "start cm r = (if thread r = None
     then Inr (r\<lparr>looping := True, thread := Some \<lparr>cpumask = cm, bound = None, pc = Spawned\<rparr>, running := True\<rparr>)
     else Inl Terminate)"
  by (auto simp: start_def Let_def split: option.splits)

lemma stop_cases:
  "running r = (thread r \<noteq> None) \<Longrightarrow>
   stop r = Inr (if running r then r\<lparr>looping := False, thread := None, running := False\<rparr> else r)"
  by (auto simp: stop_def split: option.splits)

lemma wf_add_metric: "wf lib s \<Longrightarrow> wf lib (snd (add_metric lib c k s))"
  unfolding wf_def add_metric_def get_current_cpu_def
  by (auto simp: Let_def start_cases new_recorder_thread_def split: option.splits sum.splits if_splits)

lemma wf_get_all_values: "wf lib s \<Longrightarrow> wf lib (snd (get_all_values h c s))"
  unfolding wf_def get_all_values_def
  by (auto simp: Let_def stop_def split: option.splits sum.splits if_splits)

lemma wf_thread_enters: "wf lib s \<Longrightarrow> wf lib (thread_enters n ok s)"
  unfolding wf_def thread_enters_def
  by (auto simp: Let_def split: option.splits sum.splits if_splits)

lemma wf_thread_iterates: "wf lib s \<Longrightarrow> wf lib (thread_iterates n rd s)"
  unfolding wf_def thread_iterates_def loop_iteration_def
  by (auto simp: Let_def split: option.splits sum.splits if_splits)

lemma wf_step: "wf lib s \<Longrightarrow> wf lib (snd (step lib e s))"
  by (cases e) (simp_all add: wf_get_metric_properties wf_add_metric wf_get_all_values
      wf_thread_enters wf_thread_iterates)

lemma wf_run: "wf lib s \<Longrightarrow> wf lib (snd (run lib evs s))"
proof (induction evs arbitrary: s)
  case Nil
  then show ?case by simp
next
  case (Cons e evs)
  obtain r s' where st: "step lib e s = (r, s')" by (cases "step lib e s")
  with wf_step[OF Cons.prems, of e] have w: "wf lib s'" by simp
  from Cons.IH[OF w] w st show ?case
    by (cases "run lib evs s'") simp
qed

lemma wf_reachable: "reachable lib s \<Longrightarrow> wf lib s"
proof (induction rule: reachable.induct)
  case reachable_init
  show ?case by (rule wf_init)
next
  case (reachable_step s e r s')
  from wf_step[OF reachable_step.IH, of e] reachable_step.hyps(2) show ?case by simp
qed


subsection \<open>Runs and the example state\<close>

lemma run_reachable:
  "reachable lib s \<Longrightarrow> \<not> list_ex (\<lambda>x. fatal (snd x)) (fst (run lib evs s)) \<Longrightarrow>
   reachable lib (snd (run lib evs s))"
proof (induction evs arbitrary: s)
  case Nil
  then show ?case by simp
next
  case (Cons e evs)
  obtain r s' where st: "step lib e s = (r, s')" by (cases "step lib e s")
  obtain l s'' where rn: "run lib evs s' = (l, s'')" by (cases "run lib evs s'")
  from Cons.prems(2) st rn have nf: "\<not> fatal r" and rest: "\<not> list_ex (\<lambda>x. fatal (snd x)) l"
    by (auto split: if_splits)
  from Cons.prems(1) st nf have "reachable lib s'" by (rule reachable_step)
  from Cons.IH[OF this] rest rn nf st show ?case by simp
qed

lemma sampled_reachable: "reachable lib0 sampled"
  unfolding sampled_def
  by (rule run_reachable[OF reachable_init]) (simp add: example_defs)

lemma sampled_recorded_knobs: "recorded_knobs sampled = [\<lparr>item = knob_a, cpu = 0\<rparr>]"
  by (simp add: sampled_def example_defs)

lemma sampled_timeline: "timeline sampled 0 knob_a = [(0, 100), (10, 200)]"
  by (simp add: sampled_def timeline_def rd0_def rd1_def example_defs)

subsection \<open>What a step keeps\<close>

lemma timeline_get_all_values:
  "timeline (snd (get_all_values h c s)) n ci = timeline s n ci"
  unfolding get_all_values_def timeline_def
  by (auto simp: Let_def split: option.splits sum.splits)

lemma extends_refl: "extends s s"
  by (simp add: extends_def)

lemma extends_trans: "extends s t \<Longrightarrow> extends t u \<Longrightarrow> extends s u"
  unfolding extends_def by (meson prefix_order.trans)

lemma get_emplace_back:
  "(case emplace_back tms c x ci of None \<Rightarrow> [] | Some v \<Rightarrow> v) =
   (case tms ci of None \<Rightarrow> [] | Some v \<Rightarrow> v) @ (if c = ci then [x] else [])"
  by (simp add: emplace_back_def)

lemma get_sample_items:
  "(case sample_items cis k rd tms ci of None \<Rightarrow> [] | Some v \<Rightarrow> v) =
   (case tms ci of None \<Rightarrow> [] | Some v \<Rightarrow> v) @
     map (rd \<circ> fst) (filter (\<lambda>p. snd (snd p) = ci) (enumerate k cis))"
proof (induction cis arbitrary: k tms)
  case Nil
  show ?case by simp
next
  case (Cons c cis)
  show ?case by (simp add: Cons.IH get_emplace_back)
qed

lemma extends_get_metric_properties:
  "wf lib s \<Longrightarrow> extends s (snd (get_metric_properties lib k s))"
  unfolding wf_def extends_def get_metric_properties_def timeline_def
  by (auto simp: map_of_map_emplace split: option.splits)

lemma extends_add_metric: "extends s (snd (add_metric lib c k s))"
  unfolding extends_def add_metric_def get_current_cpu_def timeline_def
  by (auto simp: Let_def start_cases split: option.splits sum.splits if_splits)

lemma extends_get_all_values: "extends s (snd (get_all_values h c s))"
  unfolding extends_def
  by (auto simp: timeline_get_all_values)
    (auto simp: get_all_values_def Let_def split: option.splits sum.splits if_splits)

lemma extends_thread_enters: "extends s (thread_enters n ok s)"
  unfolding extends_def thread_enters_def timeline_def
  by (auto simp: Let_def split: option.splits)

lemma timeline_thread_iterates:
  "timeline (thread_iterates n rd s) m ci =
   timeline s m ci @
     (case recorders s n of
        None \<Rightarrow> []
      | Some r \<Rightarrow>
         (case thread r of
            None \<Rightarrow> []
          | Some th \<Rightarrow>
             if m = n \<and> values_of s n \<noteq> None \<and> pc th = In_loop \<and> looping r
             then map (rd \<circ> fst) (filter (\<lambda>p. snd (snd p) = ci) (enumerate 0 (knobs s)))
             else []))"
  unfolding thread_iterates_def timeline_def loop_iteration_def
  by (auto simp: Let_def get_sample_items split: option.splits)

lemma extends_thread_iterates: "extends s (thread_iterates n rd s)"
  unfolding extends_def
  by (auto simp: timeline_thread_iterates)
    (auto simp: thread_iterates_def Let_def loop_iteration_def split: option.splits)

lemma extends_step: "wf lib s \<Longrightarrow> extends s (snd (step lib e s))"
  by (cases e) (simp_all add: extends_get_metric_properties extends_add_metric
      extends_get_all_values extends_thread_enters extends_thread_iterates)

lemma extends_run: "wf lib s \<Longrightarrow> extends s (snd (run lib evs s))"
proof (induction evs arbitrary: s)
  case Nil
  show ?case by (simp add: extends_refl)
next
  case (Cons e evs)
  obtain r s' where st: "step lib e s = (r, s')" by (cases "step lib e s")
  from wf_step[OF Cons.prems, of e] st have w: "wf lib s'" by simp
  from extends_step[OF Cons.prems, of e] st have e1: "extends s s'" by simp
  from Cons.IH[OF w] have e2: "extends s' (snd (run lib evs s'))" .
  show ?case
  proof (cases "fatal r")
    case True
    with st e1 show ?thesis by simp
  next
    case False
    with st extends_trans[OF e1 e2] show ?thesis
      by (cases "run lib evs s'") simp
  qed
qed


subsection \<open>Harvesting\<close>

lemma get_all_values_valid:
  assumes w: "wf lib s" and h: "0 \<le> h" "h < int (length (recorded_knobs s))"
  shows "\<exists>r. recorders s (cpu (recorded_knobs s ! nat h)) = Some r \<and>
           running r = (thread r \<noteq> None) \<and>
           fst (get_all_values h c s) =
             Inr (c @ timeline s (cpu (recorded_knobs s ! nat h)) (item (recorded_knobs s ! nat h))) \<and>
           recorders (snd (get_all_values h c s)) =
             (recorders s)(cpu (recorded_knobs s ! nat h) \<mapsto>
                (if running r then r\<lparr>looping := False, thread := None, running := False\<rparr> else r)) \<and>
           recorded_knobs (snd (get_all_values h c s)) = recorded_knobs s \<and>
           knobs (snd (get_all_values h c s)) = knobs s \<and>
           opened (snd (get_all_values h c s)) = opened s"
proof -
  let ?o = "recorded_knobs s ! nat h"
  from h have "?o \<in> set (recorded_knobs s)" by simp
  then have "cpu ?o \<in> cpu ` set (recorded_knobs s)" by (rule imageI)
  with w obtain r where r: "recorders s (cpu ?o) = Some r"
    unfolding wf_def by blast
  with w have rt: "running r = (thread r \<noteq> None)" unfolding wf_def by blast
  from h r stop_cases[OF rt] rt show ?thesis
    unfolding get_all_values_def timeline_def
    by (simp add: Let_def split: option.splits)
qed

text \<open>
  Claim C1. For a handle of the handle table (\<open>0 \<le> h < length recorded_knobs\<close>) in a state
  the plugin can reach, \<^verbatim>\<open>get_all_values\<close> finds the recorder of the handle's CPU, stops
  it, and returns the cursor extended by the timeline of the handle's item on that CPU, in
  recorded order; afterwards that recorder is not running, holds no thread and has
  \<open>looping\<close> cleared, and no timeline has changed.
\<close>

theorem harvest_stops_then_appends:
  assumes "reachable lib s" and "0 \<le> h" and "h < int (length (recorded_knobs s))"
  shows "\<exists>r r' s'. recorders s (cpu (recorded_knobs s ! nat h)) = Some r \<and> stop r = Inr r' \<and>
           get_all_values h snk s =
             (Inr (snk @ timeline s (cpu (recorded_knobs s ! nat h)) (item (recorded_knobs s ! nat h))), s') \<and>
           recorders s' (cpu (recorded_knobs s ! nat h)) = Some r' \<and>
           \<not> running r' \<and> thread r' = None \<and> \<not> looping r' \<and>
           (\<forall>n ci. timeline s' n ci = timeline s n ci)"
proof -
  let ?o = "recorded_knobs s ! nat h"
  from assms(1) have w: "wf lib s" by (rule wf_reachable)
  from get_all_values_valid[OF w assms(2,3), of snk] obtain r where
    r: "recorders s (cpu ?o) = Some r" and rt: "running r = (thread r \<noteq> None)" and
    out: "fst (get_all_values h snk s) = Inr (snk @ timeline s (cpu ?o) (item ?o))" and
    rec: "recorders (snd (get_all_values h snk s)) =
       (recorders s)(cpu ?o \<mapsto> (if running r then r\<lparr>looping := False, thread := None, running := False\<rparr> else r))"
    by blast
  let ?r' = "if running r then r\<lparr>looping := False, thread := None, running := False\<rparr> else r"
  from w r have lp: "looping r = running r" unfolding wf_def by blast
  have st: "stop r = Inr ?r'" by (rule stop_cases[OF rt])
  have a: "get_all_values h snk s = (Inr (snk @ timeline s (cpu ?o) (item ?o)), snd (get_all_values h snk s))"
    using out by (simp add: prod_eq_iff)
  have b: "recorders (snd (get_all_values h snk s)) (cpu ?o) = Some ?r'"
    by (simp add: rec)
  have c: "\<not> running ?r' \<and> thread ?r' = None \<and> \<not> looping ?r'"
    using rt lp by simp
  have d: "\<forall>n ci. timeline (snd (get_all_values h snk s)) n ci = timeline s n ci"
    by (simp add: timeline_get_all_values)
  from r st a b c d show ?thesis by blast
qed

theorem harvest_stops_then_appends_witness:
  "get_all_values 0 [] sampled = (Inr [(0, 100), (10, 200)], snd (get_all_values 0 [] sampled)) \<and>
   (\<exists>r'. recorders (snd (get_all_values 0 [] sampled)) 0 = Some r' \<and> \<not> running r' \<and>
      thread r' = None)"
proof -
  have h: "(0::int) \<le> 0" "0 < int (length (recorded_knobs sampled))"
    by (simp_all add: sampled_recorded_knobs)
  from harvest_stops_then_appends[OF sampled_reachable h, of "[]"] show ?thesis
    by (auto simp: sampled_recorded_knobs sampled_timeline)
qed

text \<open>
  Claim C10. \<^verbatim>\<open>get_all_values\<close> indexes the handle table without a check. In a state the
  plugin can reach, a handle inside the table gives a normal return; a negative one or one
  at or beyond the length of the table is undefined behaviour, not an exception, and the
  plugin has changed nothing by then.
\<close>

theorem harvest_unchecked_index:
  assumes "reachable lib s"
  shows "if 0 \<le> ident \<and> ident < int (length (recorded_knobs s))
         then \<exists>out. fst (get_all_values ident c s) = Inr out
         else get_all_values ident c s = (Inl Undefined, s)"
proof (cases "0 \<le> ident \<and> ident < int (length (recorded_knobs s))")
  case True
  from assms have "wf lib s" by (rule wf_reachable)
  from get_all_values_valid[OF this, of ident c] True show ?thesis by auto
next
  case False
  then show ?thesis by (auto simp: get_all_values_def)
qed

theorem harvest_unchecked_index_witness:
  "get_all_values 1 [] sampled = (Inl Undefined, sampled) \<and>
   get_all_values (- 1) [] sampled = (Inl Undefined, sampled) \<and>
   (\<exists>out. fst (get_all_values 0 [] sampled) = Inr out)"
  using harvest_unchecked_index[OF sampled_reachable, of 1 "[]"]
    harvest_unchecked_index[OF sampled_reachable, of "- 1" "[]"]
    harvest_unchecked_index[OF sampled_reachable, of 0 "[]"]
  by (simp add: sampled_recorded_knobs)


subsection \<open>Sampling\<close>

lemma late_declared_reachable: "reachable lib0 late_declared"
  unfolding late_declared_def
  by (rule run_reachable[OF reachable_init]) (simp add: example_defs)

lemma late_declared_knobs: "knobs late_declared = [(''a'', knob_a), (''b'', knob_b)]"
  by (simp add: late_declared_def example_defs)

lemma late_declared_recorder:
  "recorders late_declared 0 =
     Some \<lparr>running = True, device = 0,
           thread = Some \<lparr>cpumask = {0}, bound = Some {0}, pc = In_loop\<rparr>,
           looping = True, interval = 50000000\<rparr>"
  by (simp add: late_declared_def example_defs)

lemma late_declared_timeline: "timeline late_declared 0 ci = []"
  by (simp add: late_declared_def timeline_def example_defs)

text \<open>
  Claim C2, as amended. The claim says that a running sampler reads the items registered
  for its CPU when it was started. The loop holds a reference to the plugin's name table:
  one iteration of a thread that is in its loop with \<open>looping\<close> set appends, to the timeline
  of each item, one sample for every entry of the name table as it is at that iteration
  that holds the item, in the order of the table. The table is shared by all CPUs.
\<close>

theorem loop_reads_current_name_table:
  assumes "reachable lib s" and "recorders s n = Some r" and "thread r = Some th"
    and "pc th = In_loop" and "looping r"
  shows "timeline (thread_iterates n rd s) n ci =
           timeline s n ci @
             map (rd \<circ> fst) (filter (\<lambda>p. snd (snd p) = ci) (enumerate 0 (knobs s)))"
proof -
  from assms(1) have "wf lib s" by (rule wf_reachable)
  with assms(2) have "values_of s n \<noteq> None" unfolding wf_def by blast
  with assms(2-5) show ?thesis by (simp add: timeline_thread_iterates)
qed

theorem loop_reads_current_name_table_witness:
  "timeline (thread_iterates 0 rd0 late_declared) 0 knob_a = [(0, 100)] \<and>
   timeline (thread_iterates 0 rd0 late_declared) 0 knob_b = [(1, 101)]"
  using loop_reads_current_name_table[OF late_declared_reachable late_declared_recorder,
      of "\<lparr>cpumask = {0}, bound = Some {0}, pc = In_loop\<rparr>" rd0 knob_a]
    loop_reads_current_name_table[OF late_declared_reachable late_declared_recorder,
      of "\<lparr>cpumask = {0}, bound = Some {0}, pc = In_loop\<rparr>" rd0 knob_b]
  by (simp add: late_declared_knobs late_declared_timeline rd0_def knob_a_def knob_b_def)

text \<open>
  Claim C2 as stated fails: \<open>b\<close> is not in the name table when the sampler of CPU 0 is
  started, it is declared afterwards, and the next iteration records a sample of it.
\<close>

theorem sampler_reads_item_declared_after_start:
  "map_of (knobs (snd (run lib0 [Declare ''a'', Activate cpu0 ''a'', Enter 0 True] init))) ''b'' = None \<and>
   timeline (snd (run lib0 [Declare ''a'', Activate cpu0 ''a'', Enter 0 True, Declare ''b'',
                            Iterate 0 rd0] init)) 0 knob_b = [(1, 101)]"
  by (simp add: timeline_def rd0_def example_defs)

subsection \<open>What a step does to a recorder\<close>

lemma timeline_add_metric: "timeline (snd (add_metric lib c k s)) n ci = timeline s n ci"
  unfolding add_metric_def get_current_cpu_def timeline_def
  by (auto simp: Let_def start_cases split: option.splits sum.splits if_splits)

lemma timeline_get_metric_properties:
  "timeline (snd (get_metric_properties lib k s)) n ci = timeline s n ci"
  unfolding get_metric_properties_def timeline_def by (auto split: option.splits)

lemma timeline_thread_enters: "timeline (thread_enters m ok s) n ci = timeline s n ci"
  unfolding thread_enters_def timeline_def by (auto split: option.splits)

lemma recorders_add_metric_other:
  "\<not> (is_pinned c \<and> 0 \<le> sched_getcpu c \<and> sched_getcpu c = n) \<Longrightarrow>
   recorders (snd (add_metric lib c k s)) n = recorders s n"
  unfolding add_metric_def get_current_cpu_def
  by (auto simp: Let_def start_cases split: option.splits sum.splits if_splits)


lemma recorders_get_all_values_kept:
  "recorders s n = Some r \<Longrightarrow>
   recorders (snd (get_all_values h c s)) n = Some r \<or>
   (\<exists>r'. stop r = Inr r' \<and> recorders (snd (get_all_values h c s)) n = Some r')"
  unfolding get_all_values_def
  by (auto simp: Let_def split: option.splits sum.splits if_splits)



lemma recorders_get_metric_properties:
  "recorders (snd (get_metric_properties lib k s)) = recorders s"
  unfolding get_metric_properties_def by (auto split: option.splits)

text \<open>A stopped recorder stays stopped, and its CPU's timelines stay as they are, through
  every step but an activation on that CPU.\<close>

lemma idle_step:
  assumes "\<forall>r. recorders s n = Some r \<longrightarrow> thread r = None" and "\<not> opens_device n e"
  shows "(\<forall>r. recorders (snd (step lib e s)) n = Some r \<longrightarrow> thread r = None) \<and>
         timeline (snd (step lib e s)) n ci = timeline s n ci"
proof (cases e)
  case (Declare name)
  with assms(1) show ?thesis
    by (simp add: recorders_get_metric_properties timeline_get_metric_properties)
next
  case (Activate c name)
  with assms(2) have "\<not> (is_pinned c \<and> 0 \<le> sched_getcpu c \<and> sched_getcpu c = n)" by simp
  from recorders_add_metric_other[OF this] assms(1) Activate show ?thesis
    by (simp add: timeline_add_metric)
next
  case (Harvest h)
  have "\<forall>r. recorders (snd (get_all_values h [] s)) n = Some r \<longrightarrow> thread r = None"
  proof (cases "recorders s n")
    case None
    then show ?thesis
      unfolding get_all_values_def
      by (auto simp: Let_def stop_def split: option.splits sum.splits if_splits)
  next
    case (Some r)
    with assms(1) have t: "thread r = None" by simp
    from recorders_get_all_values_kept[OF Some, of h "[]"] t show ?thesis
      by (auto simp: stop_def split: if_splits option.splits)
  qed
  with Harvest show ?thesis by (simp add: timeline_get_all_values)
next
  case (Enter m ok)
  have "\<forall>r. recorders (thread_enters m ok s) n = Some r \<longrightarrow> thread r = None"
    using assms(1) unfolding thread_enters_def by (auto split: option.splits if_splits)
  with Enter show ?thesis by (simp add: timeline_thread_enters)
next
  case (Iterate m rd)
  have a: "\<forall>r. recorders (thread_iterates m rd s) n = Some r \<longrightarrow> thread r = None"
    using assms(1) unfolding thread_iterates_def loop_iteration_def
    by (auto simp: Let_def split: option.splits if_splits)
  have b: "timeline (thread_iterates m rd s) n ci = timeline s n ci"
    using assms(1) by (auto simp: timeline_thread_iterates split: option.splits)
  from a b Iterate show ?thesis by simp
qed

lemma idle_run:
  assumes "\<forall>r. recorders s n = Some r \<longrightarrow> thread r = None"
    and "\<not> list_ex (opens_device n) evs"
  shows "timeline (snd (run lib evs s)) n ci = timeline s n ci"
  using assms
proof (induction evs arbitrary: s)
  case Nil
  show ?case by simp
next
  case (Cons e evs)
  obtain r s' where st: "step lib e s = (r, s')" by (cases "step lib e s")
  from Cons.prems(2) have ne: "\<not> opens_device n e" and rest: "\<not> list_ex (opens_device n) evs"
    by simp_all
  from idle_step[OF Cons.prems(1) ne, of lib ci] st
  have i': "\<forall>r. recorders s' n = Some r \<longrightarrow> thread r = None"
    and t': "timeline s' n ci = timeline s n ci" by simp_all
  from Cons.IH[OF i' rest] have "timeline (snd (run lib evs s')) n ci = timeline s' n ci" .
  with t' st show ?case
    by (cases "run lib evs s'") simp
qed


subsection \<open>Harvesting twice\<close>

text \<open>
  Claim C4, as amended. The claim says that a second harvest returns only what was recorded
  since a restart. \<^verbatim>\<open>get_all_values\<close> copies the timeline and clears nothing. A harvest
  returns the timeline \<open>xs\<close> of the handle's item; harvesting the same handle again at once
  returns \<open>xs\<close> again; harvesting it after any further events returns \<open>xs\<close> followed by
  exactly what the timeline has gained since, and it has gained nothing when none of those
  events is an \<^verbatim>\<open>add_metric\<close> from a pinned thread on the handle's CPU, the only call
  that starts the recorder again.
\<close>

theorem harvest_retains_timeline:
  assumes "reachable lib s" and "0 \<le> h" and "h < int (length (recorded_knobs s))"
  shows "\<exists>xs ys. xs = timeline s (cpu (recorded_knobs s ! nat h)) (item (recorded_knobs s ! nat h)) \<and>
           fst (get_all_values h [] s) = Inr xs \<and>
           fst (get_all_values h [] (snd (get_all_values h [] s))) = Inr xs \<and>
           fst (get_all_values h [] (snd (run lib evs (snd (get_all_values h [] s))))) = Inr (xs @ ys) \<and>
           timeline (snd (run lib evs (snd (get_all_values h [] s))))
             (cpu (recorded_knobs s ! nat h)) (item (recorded_knobs s ! nat h)) = xs @ ys \<and>
           (\<not> list_ex (opens_device (cpu (recorded_knobs s ! nat h))) evs \<longrightarrow> ys = [])"
proof -
  let ?o = "recorded_knobs s ! nat h"
  let ?s1 = "snd (get_all_values h [] s)"
  let ?s2 = "snd (run lib evs ?s1)"
  from assms(1) have w: "wf lib s" by (rule wf_reachable)
  from get_all_values_valid[OF w assms(2,3), of "[]"] obtain r where
    rt: "running r = (thread r \<noteq> None)"
    and out: "fst (get_all_values h [] s) = Inr (timeline s (cpu ?o) (item ?o))"
    and rec: "recorders ?s1 = (recorders s)(cpu ?o \<mapsto>
        (if running r then r\<lparr>looping := False, thread := None, running := False\<rparr> else r))"
    and rk: "recorded_knobs ?s1 = recorded_knobs s" unfolding append_Nil by blast
  from rt rec have idle: "\<forall>r. recorders ?s1 (cpu ?o) = Some r \<longrightarrow> thread r = None"
    by auto
  from wf_get_all_values[OF w] have w1: "wf lib ?s1" .
  from wf_run[OF w1] have w2: "wf lib ?s2" .
  from assms(2,3) rk have h1: "0 \<le> h" "h < int (length (recorded_knobs ?s1))" by simp_all
  from get_all_values_valid[OF w1 h1, of "[]"] rk
  have out1: "fst (get_all_values h [] ?s1) = Inr (timeline ?s1 (cpu ?o) (item ?o))" by auto
  have t1: "timeline ?s1 (cpu ?o) (item ?o) = timeline s (cpu ?o) (item ?o)"
    by (rule timeline_get_all_values)
  from extends_run[OF w1, of evs] have ex: "extends ?s1 ?s2" .
  then have pk: "prefix (recorded_knobs ?s1) (recorded_knobs ?s2)"
    and pt: "prefix (timeline ?s1 (cpu ?o) (item ?o)) (timeline ?s2 (cpu ?o) (item ?o))"
    unfolding extends_def by blast+
  from pk obtain zs where zs: "recorded_knobs ?s2 = recorded_knobs s @ zs"
    unfolding rk by (auto simp: prefix_def)
  from assms(2,3) zs have h2: "0 \<le> h" "h < int (length (recorded_knobs ?s2))"
    and o2: "recorded_knobs ?s2 ! nat h = ?o"
    by (simp_all add: nth_append)
  from get_all_values_valid[OF w2 h2, of "[]"] o2
  have out2: "fst (get_all_values h [] ?s2) = Inr (timeline ?s2 (cpu ?o) (item ?o))" by auto
  from pt obtain ys where ys: "timeline ?s2 (cpu ?o) (item ?o) = timeline s (cpu ?o) (item ?o) @ ys"
    unfolding t1 by (auto simp: prefix_def)
  have "ys = []" if "\<not> list_ex (opens_device (cpu ?o)) evs"
    using idle_run[OF idle that, of lib "item ?o"] ys t1 by simp
  with out out1 out2 t1 ys show ?thesis by auto
qed

theorem harvest_retains_timeline_witness:
  "fst (get_all_values 0 [] (snd (get_all_values 0 [] sampled))) = Inr [(0, 100), (10, 200)] \<and>
   fst (get_all_values 0 [] (snd (run lib0 [Enter 0 True, Iterate 0 rd0]
          (snd (get_all_values 0 [] sampled))))) = Inr [(0, 100), (10, 200)] \<and>
   (\<exists>ys. fst (get_all_values 0 [] (snd (run lib0 [Activate cpu0 ''a'', Enter 0 True, Iterate 0 rd0]
            (snd (get_all_values 0 [] sampled))))) = Inr ([(0, 100), (10, 200)] @ ys))"
proof -
  have h: "(0::int) \<le> 0" "0 < int (length (recorded_knobs sampled))"
    by (simp_all add: sampled_recorded_knobs)
  from harvest_retains_timeline[OF sampled_reachable h, of "[Enter 0 True, Iterate 0 rd0]"]
    harvest_retains_timeline[OF sampled_reachable h,
      of "[Activate cpu0 ''a'', Enter 0 True, Iterate 0 rd0]"]
  show ?thesis
    by (auto simp: sampled_recorded_knobs sampled_timeline)
qed

text \<open>
  Claim C4 as stated fails: one sample is recorded, and two harvests in a row, with no
  restart between them, both return it.
\<close>

theorem second_harvest_repeats_samples:
  "drop 4 (map snd (fst (run lib0 [Declare ''a'', Activate cpu0 ''a'', Enter 0 True, Iterate 0 rd0,
                                   Harvest 0, Harvest 0] init))) =
     [Inr (Samples [(0, 100)]), Inr (Samples [(0, 100)])]"
  by (simp add: rd0_def example_defs)


subsection \<open>Declaring\<close>

text \<open>
  Claim C8. Once \<^verbatim>\<open>get_metric_properties\<close> has succeeded for a name, declaring the name
  again, at once or after any further events, returns the same description and leaves the
  whole state as it is; the entry of the name in the name table is the item the library's
  lookup gives, then and later.
\<close>

theorem declare_idempotent:
  assumes "reachable lib s" and "get_metric_properties lib name s = (Inr ps, s1)"
  shows "get_metric_properties lib name (snd (run lib evs s1)) = (Inr ps, snd (run lib evs s1)) \<and>
         map_of (knobs (snd (run lib evs s1))) name = map_of (knobs s1) name \<and>
         map_of (knobs s1) name = ci_lookup lib name"
proof -
  let ?s2 = "snd (run lib evs s1)"
  from assms(1) have w: "wf lib s" by (rule wf_reachable)
  from assms(2) obtain ci where ci: "ci_lookup lib name = Some ci"
    and ps: "ps = [\<lparr>mp_name = name, mp_description = ci_description ci, mp_unit = ''#'',
                   mp_mode = Absolute_point, mp_value_type = Value_uint\<rparr>]"
    and s1: "s1 = s\<lparr>knobs := map_emplace name ci (knobs s)\<rparr>"
    by (auto simp: get_metric_properties_def split: option.splits)
  from wf_get_metric_properties[OF w, of name] assms(2) have w1: "wf lib s1" by simp
  from w have srt: "sorted_wrt (<) (map fst (knobs s))"
    and lk: "\<And>v. map_of (knobs s) name = Some v \<Longrightarrow> ci_lookup lib name = Some v"
    unfolding wf_def by blast+
  have k1: "map_of (knobs s1) name = Some ci"
  proof (cases "map_of (knobs s) name")
    case None
    then show ?thesis by (simp add: s1 map_of_map_emplace[OF srt])
  next
    case (Some v)
    with lk[of v] ci have "v = ci" by simp
    with Some show ?thesis by (simp add: s1 map_of_map_emplace[OF srt])
  qed
  from wf_run[OF w1] have w2: "wf lib ?s2" .
  from extends_run[OF w1, of evs] k1 have k2: "map_of (knobs ?s2) name = Some ci"
    unfolding extends_def by blast
  from w2 have "sorted_wrt (<) (map fst (knobs ?s2))" unfolding wf_def by blast
  from map_emplace_present[OF this k2] have "map_emplace name ci (knobs ?s2) = knobs ?s2" .
  then have "get_metric_properties lib name ?s2 = (Inr ps, ?s2)"
    by (simp add: get_metric_properties_def ci ps)
  with k1 k2 ci show ?thesis by simp
qed

theorem declare_idempotent_witness:
  "get_metric_properties lib0 ''a'' init =
     (Inr [\<lparr>mp_name = ''a'', mp_description = ''first knob'', mp_unit = ''#'',
            mp_mode = Absolute_point, mp_value_type = Value_uint\<rparr>], snd (run lib0 [Declare ''a''] init)) \<and>
   get_metric_properties lib0 ''a'' sampled =
     (Inr [\<lparr>mp_name = ''a'', mp_description = ''first knob'', mp_unit = ''#'',
            mp_mode = Absolute_point, mp_value_type = Value_uint\<rparr>], sampled) \<and>
   map_of (knobs sampled) ''a'' = Some knob_a"
proof -
  have d: "get_metric_properties lib0 ''a'' init =
     (Inr [\<lparr>mp_name = ''a'', mp_description = ''first knob'', mp_unit = ''#'',
            mp_mode = Absolute_point, mp_value_type = Value_uint\<rparr>], snd (run lib0 [Declare ''a''] init))"
    by (simp add: get_metric_properties_def lib0_def knob_a_def)
  have r: "snd (run lib0 [Activate cpu0 ''a'', Enter 0 True, Iterate 0 rd0, Iterate 0 rd1]
             (snd (run lib0 [Declare ''a''] init))) = sampled"
    by (simp add: sampled_def example_defs)
  from declare_idempotent[OF reachable_init d,
      of "[Activate cpu0 ''a'', Enter 0 True, Iterate 0 rd0, Iterate 0 rd1]"] d
  show ?thesis unfolding r by (simp add: lib0_def)
qed

subsection \<open>Activating from a thread that is not pinned\<close>

text \<open>
  Claim C5. \<^verbatim>\<open>add_metric\<close> from a thread whose affinity mask holds more than one CPU
  raises the not-pinned exception and returns the state it was given: no handle, no
  recorder, no thread, no device opened.
\<close>

theorem activate_not_pinned:
  "1 < card (affinity c) \<Longrightarrow>
   add_metric lib c knob_name s =
     (Inl (Raised ''Thread is not pinned to one specific CPU. Cannot continue.''), s)"
  by (simp add: add_metric_def is_pinned_def)

theorem activate_not_pinned_witness:
  "1 < card (affinity cpu01) \<and>
   add_metric lib0 cpu01 ''a'' init =
     (Inl (Raised ''Thread is not pinned to one specific CPU. Cannot continue.''), init)"
proof -
  have h: "1 < card (affinity cpu01)" by (simp add: cpu01_def)
  from h activate_not_pinned[OF h, of lib0 "''a''" init] show ?thesis by simp
qed

subsection \<open>Starting a recorder\<close>




text \<open>
  Claim C6. The claim says that \<^verbatim>\<open>start\<close> is invoked on a stopped recorder only and that
  activating on a CPU whose recorder is running leaves it running. \<^verbatim>\<open>add_metric\<close> calls
  \<^verbatim>\<open>start\<close> without looking at \<open>running\<close>: two metrics are declared and activated from
  the same pinned thread, and the second activation ends in \<^verbatim>\<open>std::terminate\<close>.
\<close>

theorem second_activation_terminates:
  "drop 2 (map snd (fst (run lib0 [Declare ''a'', Declare ''b'', Activate cpu0 ''a'',
                                   Activate cpu0 ''b''] init))) =
     [Inr (Handle 0), Inl Terminate]"
  by (simp add: example_defs)


subsection \<open>Recorders and devices\<close>













subsection \<open>Handles\<close>

lemma add_metric_ok:
  assumes "is_pinned c" and "0 \<le> sched_getcpu c" and "cpu_present lib (sched_getcpu c)"
    and "map_of (knobs s) name = Some ci"
    and "\<forall>r. recorders s (sched_getcpu c) = Some r \<longrightarrow> thread r = None"
  shows "fst (add_metric lib c name s) = Inr (static_cast_int (length (recorded_knobs s))) \<and>
         recorded_knobs (snd (add_metric lib c name s)) =
           recorded_knobs s @ [\<lparr>item = ci, cpu = sched_getcpu c\<rparr>] \<and>
         knobs (snd (add_metric lib c name s)) = knobs s"
  using assms unfolding add_metric_def get_current_cpu_def
  by (auto simp: Let_def start_cases new_recorder_thread_def split: option.splits)

lemma add_metric_Inr:
  assumes "wf lib s" and "add_metric lib c name s = (Inr h, s')"
  shows "h = static_cast_int (length (recorded_knobs s)) \<and>
         (\<exists>ci. ci_lookup lib name = Some ci \<and>
            recorded_knobs s' = recorded_knobs s @ [\<lparr>item = ci, cpu = sched_getcpu c\<rparr>])"
proof -
  from assms(1) have lk: "\<And>v. map_of (knobs s) name = Some v \<Longrightarrow> ci_lookup lib name = Some v"
    unfolding wf_def by blast
  from assms(2) obtain ci where ci: "map_of (knobs s) name = Some ci"
    and rest: "h = static_cast_int (length (recorded_knobs s))"
      "recorded_knobs s' = recorded_knobs s @ [\<lparr>item = ci, cpu = sched_getcpu c\<rparr>]"
    unfolding add_metric_def get_current_cpu_def
    by (auto simp: Let_def start_cases new_recorder_thread_def split: option.splits if_splits)
  from lk[OF ci] rest show ?thesis by blast
qed

lemma add_metric_Inl:
  assumes "add_metric lib c name s = (Inl e, s')" and "\<not> fatal (Inl e :: failure + retval)"
  shows "recorded_knobs s' = recorded_knobs s"
  using assms unfolding add_metric_def get_current_cpu_def
  by (auto simp: Let_def start_cases new_recorder_thread_def split: option.splits if_splits)

lemma recorded_knobs_get_all_values:
  "recorded_knobs (snd (get_all_values h c s)) = recorded_knobs s"
  unfolding get_all_values_def
  by (auto simp: Let_def split: option.splits sum.splits if_splits)

lemma recorded_knobs_thread_enters: "recorded_knobs (thread_enters n ok s) = recorded_knobs s"
  unfolding thread_enters_def by (auto split: option.splits)

lemma recorded_knobs_thread_iterates: "recorded_knobs (thread_iterates n rd s) = recorded_knobs s"
  unfolding thread_iterates_def by (auto simp: Let_def split: option.splits prod.splits)

lemma recorded_knobs_get_metric_properties:
  "recorded_knobs (snd (get_metric_properties lib k s)) = recorded_knobs s"
  unfolding get_metric_properties_def by (auto split: option.splits)

text \<open>What one step does to the handle table and to the list of activations.\<close>

lemma step_activation:
  assumes "wf lib s" and "step lib e s = (r, s')" and "\<not> fatal r"
  shows "(\<exists>c name h ci. e = Activate c name \<and> r = Inr (Handle h) \<and>
            activations ((e, r) # l) = (c, name, h) # activations l \<and>
            h = static_cast_int (length (recorded_knobs s)) \<and> ci_lookup lib name = Some ci \<and>
            recorded_knobs s' = recorded_knobs s @ [\<lparr>item = ci, cpu = sched_getcpu c\<rparr>]) \<or>
         (activations ((e, r) # l) = activations l \<and> recorded_knobs s' = recorded_knobs s)"
proof (cases e)
  case (Declare name)
  with assms(2) recorded_knobs_get_metric_properties[of lib name s] show ?thesis
    by (cases "get_metric_properties lib name s"; cases r) auto
next
  case (Activate c name)
  show ?thesis
  proof (cases "fst (add_metric lib c name s)")
    case (Inl x)
    with assms(2) Activate have r: "r = Inl x" and am: "add_metric lib c name s = (Inl x, s')"
      by (auto simp: prod_eq_iff)
    from assms(3) r have "\<not> fatal (Inl x :: failure + retval)"
      by (cases x) auto
    from add_metric_Inl[OF am this] r Activate show ?thesis by simp
  next
    case (Inr h)
    with assms(2) Activate have r: "r = Inr (Handle h)" and am: "add_metric lib c name s = (Inr h, s')"
      by (auto simp: prod_eq_iff)
    from add_metric_Inr[OF assms(1) am] r Activate show ?thesis by auto
  qed
next
  case (Harvest h)
  with assms(2) recorded_knobs_get_all_values[of h "[]" s] show ?thesis
    by (cases "get_all_values h [] s"; cases r) auto
next
  case (Enter n ok)
  with assms(2) show ?thesis by (auto simp: recorded_knobs_thread_enters)
next
  case (Iterate n rd)
  with assms(2) show ?thesis by (auto simp: recorded_knobs_thread_iterates)
qed

lemma run_activations:
  assumes "wf lib s" and "i < length (activations (fst (run lib evs s)))"
    and "activations (fst (run lib evs s)) ! i = (c, name, h)"
  shows "h = static_cast_int (length (recorded_knobs s) + i) \<and>
         length (recorded_knobs s) + i < length (recorded_knobs (snd (run lib evs s))) \<and>
         ci_lookup lib name =
           Some (item (recorded_knobs (snd (run lib evs s)) ! (length (recorded_knobs s) + i))) \<and>
         cpu (recorded_knobs (snd (run lib evs s)) ! (length (recorded_knobs s) + i)) = sched_getcpu c"
  using assms
proof (induction evs arbitrary: s i)
  case Nil
  then show ?case by simp
next
  case (Cons e evs)
  obtain r s' where st: "step lib e s = (r, s')" by (cases "step lib e s")
  obtain l s'' where rn: "run lib evs s' = (l, s'')" by (cases "run lib evs s'")
  from wf_step[OF Cons.prems(1), of e] st have w': "wf lib s'" by simp
  show ?case
  proof (cases "fatal r")
    case True
    then obtain x where "r = Inl x" by (cases r) auto
    with True st Cons.prems(2) show ?thesis by simp
  next
    case False
    with st rn have run_eq: "run lib (e # evs) s = ((e, r) # l, s'')" by simp
    from extends_run[OF w', of evs] rn have pf: "prefix (recorded_knobs s') (recorded_knobs s'')"
      by (simp add: extends_def)
    from step_activation[OF Cons.prems(1) st False, of l]
    consider (act) c0 name0 h0 ci where "e = Activate c0 name0" "r = Inr (Handle h0)"
        "activations ((e, r) # l) = (c0, name0, h0) # activations l"
        "h0 = static_cast_int (length (recorded_knobs s))" "ci_lookup lib name0 = Some ci"
        "recorded_knobs s' = recorded_knobs s @ [\<lparr>item = ci, cpu = sched_getcpu c0\<rparr>]"
      | (other) "activations ((e, r) # l) = activations l" "recorded_knobs s' = recorded_knobs s"
      by blast
    then show ?thesis
    proof cases
      case act
      from pf act(6) obtain zs where zs:
        "recorded_knobs s'' = recorded_knobs s @ [\<lparr>item = ci, cpu = sched_getcpu c0\<rparr>] @ zs"
        by (auto simp: prefix_def)
      show ?thesis
      proof (cases i)
        case 0
        with Cons.prems(3) run_eq act(3) have "c = c0" "name = name0" "h = h0" by simp_all
        with 0 act(4,5) zs run_eq show ?thesis by (simp add: nth_append)
      next
        case (Suc j)
        with Cons.prems(2,3) run_eq act(3) rn
        have j: "j < length (activations (fst (run lib evs s')))"
          "activations (fst (run lib evs s')) ! j = (c, name, h)" by simp_all
        from Cons.IH[OF w' j] act(6) Suc rn run_eq show ?thesis by simp
      qed
    next
      case other
      with Cons.prems(2,3) run_eq rn
      have j: "i < length (activations (fst (run lib evs s')))"
        "activations (fst (run lib evs s')) ! i = (c, name, h)" by simp_all
      from Cons.IH[OF w' j] other(2) rn run_eq show ?thesis by simp
    qed
  qed
qed

lemma static_cast_int_small: "n < 2 ^ 31 \<Longrightarrow> static_cast_int n = int n"
proof -
  assume "n < 2 ^ 31"
  then have "int n < 2 ^ 31" by (metis of_nat_less_iff of_nat_numeral of_nat_power)
  then show ?thesis by (simp add: static_cast_int_def Let_def)
qed

text \<open>
  Claim C7, as amended. In any run from the initial state, the \<open>i\<close>-th call of
  \<^verbatim>\<open>add_metric\<close> that returns (counting from 0, with \<open>i < 2^31\<close>) returns the handle \<open>i\<close>,
  and at the end of the run, however long it goes on, entry \<open>i\<close> of the handle table holds
  the item the library gives for the name of that call and the CPU its caller ran on.
\<close>

theorem handles_dense_and_stable:
  assumes "i < length (activations (fst (run lib evs init)))"
    and "activations (fst (run lib evs init)) ! i = (c, name, h)"
    and "i < 2 ^ 31"
  shows "h = int i \<and> i < length (recorded_knobs (snd (run lib evs init))) \<and>
         ci_lookup lib name = Some (item (recorded_knobs (snd (run lib evs init)) ! i)) \<and>
         cpu (recorded_knobs (snd (run lib evs init)) ! i) = sched_getcpu c"
  using run_activations[OF wf_init assms(1,2)] static_cast_int_small[OF assms(3)]
  by (simp add: init_def)


theorem handles_dense_and_stable_witness:
  "activations (fst (run lib0 [Declare ''a'', Declare ''b'', Activate cpu0 ''a'', Harvest 0,
                              Activate cpu0 ''b''] init)) = [(cpu0, ''a'', 0), (cpu0, ''b'', 1)] \<and>
   item (recorded_knobs (snd (run lib0 [Declare ''a'', Declare ''b'', Activate cpu0 ''a'', Harvest 0,
                                       Activate cpu0 ''b''] init)) ! 1) = knob_b \<and>
   cpu (recorded_knobs (snd (run lib0 [Declare ''a'', Declare ''b'', Activate cpu0 ''a'', Harvest 0,
                                      Activate cpu0 ''b''] init)) ! 1) = 0"
proof -
  let ?evs = "[Declare ''a'', Declare ''b'', Activate cpu0 ''a'', Harvest 0, Activate cpu0 ''b'']"
  have a: "activations (fst (run lib0 ?evs init)) = [(cpu0, ''a'', 0), (cpu0, ''b'', 1)]"
    by (simp add: example_defs)
  have h: "1 < length (activations (fst (run lib0 ?evs init)))"
    "activations (fst (run lib0 ?evs init)) ! 1 = (cpu0, ''b'', 1)" "(1::nat) < 2 ^ 31"
    unfolding a by simp_all
  from handles_dense_and_stable[OF h] a show ?thesis
    by (simp add: lib0_def cpu0_def)
qed

lemma rounds_Suc: "rounds (Suc n) = Activate cpu0 ''a'' # Harvest 0 # rounds n"
  by (simp add: rounds_def)

lemma rounds_run:
  assumes "wf lib0 s" and "knobs s = [(''a'', knob_a)]"
    and "recorded_knobs s = replicate k \<lparr>item = knob_a, cpu = 0\<rparr>"
    and "\<forall>r. recorders s 0 = Some r \<longrightarrow> thread r = None"
  shows "knobs (snd (run lib0 (rounds n) s)) = [(''a'', knob_a)] \<and>
         recorded_knobs (snd (run lib0 (rounds n) s)) = replicate (k + n) \<lparr>item = knob_a, cpu = 0\<rparr> \<and>
         (\<forall>r. recorders (snd (run lib0 (rounds n) s)) 0 = Some r \<longrightarrow> thread r = None) \<and>
         length (activations (fst (run lib0 (rounds n) s))) = n"
  using assms
proof (induction n arbitrary: s k)
  case 0
  then show ?case by (simp add: rounds_def)
next
  case (Suc n)
  let ?o = "\<lparr>item = knob_a, cpu = 0\<rparr>"
  let ?s1 = "snd (add_metric lib0 cpu0 ''a'' s)"
  let ?s2 = "snd (get_all_values 0 [] ?s1)"
  have pin: "is_pinned cpu0" "0 \<le> sched_getcpu cpu0" "cpu_present lib0 (sched_getcpu cpu0)"
    "sched_getcpu cpu0 = 0"
    by (simp_all add: is_pinned_def cpu0_def lib0_def)
  have lk: "map_of (knobs s) ''a'' = Some knob_a" by (simp add: Suc.prems(2))
  from Suc.prems(4) pin(4) have idle: "\<forall>r. recorders s (sched_getcpu cpu0) = Some r \<longrightarrow> thread r = None"
    by simp
  from add_metric_ok[OF pin(1-3) lk idle] pin(4) Suc.prems(2,3)
  have a1: "fst (add_metric lib0 cpu0 ''a'' s) = Inr (static_cast_int k)"
    and rk1: "recorded_knobs ?s1 = replicate k ?o @ [?o]"
    and kn1: "knobs ?s1 = [(''a'', knob_a)]"
    by simp_all
  from wf_add_metric[OF Suc.prems(1)] have w1: "wf lib0 ?s1" .
  have h: "(0::int) \<le> 0" "0 < int (length (recorded_knobs ?s1))" by (simp_all add: rk1)
  have o1: "recorded_knobs ?s1 ! nat 0 = ?o"
    by (cases k) (simp_all add: rk1)
  from get_all_values_valid[OF w1 h, of "[]"] obtain r where
    r: "running r = (thread r \<noteq> None)" and
    g: "fst (get_all_values 0 [] ?s1) = Inr ([] @ timeline ?s1 (cpu ?o) (item ?o))"
      "recorders ?s2 = (recorders ?s1)(cpu ?o \<mapsto>
         (if running r then r\<lparr>looping := False, thread := None, running := False\<rparr> else r))"
      "recorded_knobs ?s2 = recorded_knobs ?s1" "knobs ?s2 = knobs ?s1"
    unfolding o1 by blast
  from wf_get_all_values[OF w1] have w2: "wf lib0 ?s2" .
  have kn2: "knobs ?s2 = [(''a'', knob_a)]" by (simp add: g(4) kn1)
  have rk2: "recorded_knobs ?s2 = replicate (Suc k) ?o"
    by (simp add: g(3) rk1 replicate_append_same)
  have idle2: "\<forall>r. recorders ?s2 0 = Some r \<longrightarrow> thread r = None"
    using r by (auto simp: g(2))
  note IH = Suc.IH[OF w2 kn2 rk2 idle2]
  have st1: "step lib0 (Activate cpu0 ''a'') s = (Inr (Handle (static_cast_int k)), ?s1)"
    using a1 by (simp add: prod_eq_iff)
  have st2: "step lib0 (Harvest 0) ?s1 =
     (Inr (Samples (timeline ?s1 (cpu ?o) (item ?o))), ?s2)"
    using g(1) by (simp add: prod_eq_iff)
  obtain l s'' where rn: "run lib0 (rounds n) ?s2 = (l, s'')" by (cases "run lib0 (rounds n) ?s2")
  have "run lib0 (rounds (Suc n)) s =
      ((Activate cpu0 ''a'', Inr (Handle (static_cast_int k))) #
       (Harvest 0, Inr (Samples (timeline ?s1 (cpu ?o) (item ?o)))) # l, s'')"
    unfolding rounds_Suc by (simp add: st1 st2 rn del: step.simps)
  with IH rn show ?case by simp
qed

text \<open>
  Claim C7 as stated fails beyond \<^verbatim>\<open>INT_MAX\<close>: after \<open>2^31\<close> rounds of activating and
  harvesting, each of which returned a handle, the next activation returns
  \<open>- 2147483648\<close>, the \<^verbatim>\<open>int\<close> that \<^verbatim>\<open>static_cast\<close> makes of the table size \<open>2^31\<close>.
\<close>

theorem handle_wraps_at_2_31:
  "length (activations (fst (run lib0 (Declare ''a'' # rounds (2 ^ 31)) init))) = 2 ^ 31 \<and>
   fst (add_metric lib0 cpu0 ''a'' (snd (run lib0 (Declare ''a'' # rounds (2 ^ 31)) init))) =
     Inr (- 2147483648)"
proof -
  define N :: nat where "N = 2 ^ 31"
  let ?s0 = "snd (get_metric_properties lib0 ''a'' init)"
  let ?sN = "snd (run lib0 (rounds N) ?s0)"
  have w0: "wf lib0 ?s0" by (rule wf_get_metric_properties[OF wf_init])
  have k0: "knobs ?s0 = [(''a'', knob_a)]"
    and r0: "recorded_knobs ?s0 = replicate 0 \<lparr>item = knob_a, cpu = 0\<rparr>"
    and i0: "\<forall>r. recorders ?s0 0 = Some r \<longrightarrow> thread r = None"
    by (simp_all add: get_metric_properties_def lib0_def init_def)
  from rounds_run[OF w0 k0 r0 i0, of N]
  have kN: "knobs ?sN = [(''a'', knob_a)]"
    and rN: "length (recorded_knobs ?sN) = N"
    and iN: "\<forall>r. recorders ?sN 0 = Some r \<longrightarrow> thread r = None"
    and aN: "length (activations (fst (run lib0 (rounds N) ?s0))) = N"
    by simp_all
  have pin: "is_pinned cpu0" "0 \<le> sched_getcpu cpu0" "cpu_present lib0 (sched_getcpu cpu0)"
    "sched_getcpu cpu0 = 0"
    by (simp_all add: is_pinned_def cpu0_def lib0_def)
  have lk: "map_of (knobs ?sN) ''a'' = Some knob_a" by (simp add: kN)
  from iN pin(4) have idle: "\<forall>r. recorders ?sN (sched_getcpu cpu0) = Some r \<longrightarrow> thread r = None"
    by simp
  from add_metric_ok[OF pin(1-3) lk idle] rN
  have res: "fst (add_metric lib0 cpu0 ''a'' ?sN) = Inr (static_cast_int N)" by simp
  have cast: "static_cast_int N = - 2147483648"
    by (simp add: static_cast_int_def N_def)
  have d: "step lib0 (Declare ''a'') init =
      (Inr (Properties [\<lparr>mp_name = ''a'', mp_description = ''first knob'', mp_unit = ''#'',
            mp_mode = Absolute_point, mp_value_type = Value_uint\<rparr>]), ?s0)"
    by (simp add: get_metric_properties_def lib0_def knob_a_def)
  obtain l s'' where rn: "run lib0 (rounds N) ?s0 = (l, s'')" by (cases "run lib0 (rounds N) ?s0")
  have "run lib0 (Declare ''a'' # rounds N) init =
      ((Declare ''a'', Inr (Properties [\<lparr>mp_name = ''a'', mp_description = ''first knob'',
            mp_unit = ''#'', mp_mode = Absolute_point, mp_value_type = Value_uint\<rparr>])) # l, s'')"
    by (simp add: d rn del: step.simps)
  with rn aN res cast show ?thesis unfolding N_def by simp
qed


end
